theory Spec2Isabelle
  imports Main "HOL-Library.Char_ord" "HOL-Library.List_Lexorder" "HOL-Library.Multiset"
begin

section \<open>Python strings\<close>

text \<open>
  A Python \<open>str\<close> is modelled as a \<open>string\<close> whose characters are the code points
  0..255.  On that range \<open>str.isspace\<close>, the line boundaries of \<open>str.splitlines\<close>
  and \<open>str.lower\<close> are the tables below; \<open>str.lower\<close> maps every such character to
  one character.
\<close>

definition is_space :: "char \<Rightarrow> bool" where
  "is_space c =
     (let n = (of_char c :: nat)
      in (9 \<le> n \<and> n \<le> 13) \<or> (28 \<le> n \<and> n \<le> 32) \<or> n = 133 \<or> n = 160)"

definition is_linebreak :: "char \<Rightarrow> bool" where
  "is_linebreak c =
     (let n = (of_char c :: nat)
      in (10 \<le> n \<and> n \<le> 13) \<or> (28 \<le> n \<and> n \<le> 30) \<or> n = 133)"

definition lower_char :: "char \<Rightarrow> char" where
  "lower_char c =
     (let n = (of_char c :: nat)
      in if (65 \<le> n \<and> n \<le> 90) \<or> (192 \<le> n \<and> n \<le> 222 \<and> n \<noteq> 215)
         then char_of (n + 32) else c)"

text \<open>\<open>s.lower()\<close>\<close>

definition lower :: "string \<Rightarrow> string" where
  "lower s = map lower_char s"

text \<open>\<open>s.strip()\<close>: leading and trailing whitespace removed.\<close>

definition lstrip :: "string \<Rightarrow> string" where
  "lstrip s = dropWhile is_space s"

definition rstrip :: "string \<Rightarrow> string" where
  "rstrip s = rev (dropWhile is_space (rev s))"

definition strip :: "string \<Rightarrow> string" where
  "strip s = rstrip (lstrip s)"

text \<open>\<open>s.startswith(p)\<close>\<close>

definition startswith :: "string \<Rightarrow> string \<Rightarrow> bool" where
  "startswith s p = (take (length p) s = p)"

text \<open>\<open>" ".join(parts)\<close>\<close>

fun join_space :: "string list \<Rightarrow> string" where
  "join_space [] = []"
| "join_space [x] = x"
| "join_space (x # y # ys) = x @ CHR '' '' # join_space (y # ys)"

text \<open>
  \<open>s.splitlines()\<close>: while characters remain, the line is the longest prefix without a
  line boundary; one boundary after it is consumed, \<open>\r\n\<close> counting as one.  A boundary
  at the very end opens no further line, and the empty string has no line.
\<close>

definition skip_boundary :: "string \<Rightarrow> string" where
  "skip_boundary r =
     (case r of
        [] \<Rightarrow> []
      | c # r' \<Rightarrow>
          (case r' of
             [] \<Rightarrow> []
           | d # r'' \<Rightarrow> if c = CHR 0x0D \<and> d = CHR 0x0A then r'' else r'))"

function splitlines :: "string \<Rightarrow> string list" where
  "splitlines [] = []"
| "splitlines (c # cs) =
     takeWhile (\<lambda>x. \<not> is_linebreak x) (c # cs)
       # splitlines (skip_boundary (dropWhile (\<lambda>x. \<not> is_linebreak x) (c # cs)))"
  by pat_completeness auto
termination
proof (relation "measure length")
  show "wf (measure length)"
    by simp
next
  fix c :: char and cs :: string
  let ?P = "\<lambda>x. \<not> is_linebreak x"
  have skip: "length (skip_boundary r) \<le> length r" for r
    by (simp add: skip_boundary_def split: list.splits)
  have skip_Cons: "length (skip_boundary (d # r)) \<le> length r" for d r
    by (simp add: skip_boundary_def split: list.splits)
  have "length (skip_boundary (dropWhile ?P (c # cs))) < Suc (length cs)"
  proof (cases "?P c")
    case True
    have "length (skip_boundary (dropWhile ?P cs)) \<le> length (dropWhile ?P cs)"
      by (rule skip)
    also have "\<dots> \<le> length cs"
      by (rule length_dropWhile_le)
    finally show ?thesis
      using True by simp
  next
    case False
    then show ?thesis
      using skip_Cons [of c cs] by simp
  qed
  then show "(skip_boundary (dropWhile ?P (c # cs)), c # cs) \<in> measure length"
    by simp
qed

section \<open>The question and answer splitter\<close>

definition answer_markers :: "string list" where
  "answer_markers = [''answer:'', ''ans:'', ''a:'']"

definition question_markers :: "string list" where
  "question_markers = [''question:'', ''q:'', ''q.'']"

text \<open>
  \<open>[line.strip() for line in text.splitlines() if line.strip()]\<close>
\<close>

definition nonempty_lines :: "string \<Rightarrow> string list" where
  "nonempty_lines text = map strip (filter (\<lambda>line. strip line \<noteq> []) (splitlines text))"

text \<open>
  The inner loop \<open>for marker in answer_markers: if lower_line.startswith(marker)\<close>:
  the first marker of the tuple that is a prefix of the line.
\<close>

fun first_marker :: "string list \<Rightarrow> string \<Rightarrow> string option" where
  "first_marker [] lower_line = None"
| "first_marker (marker # markers) lower_line =
     (if startswith lower_line marker then Some marker else first_marker markers lower_line)"

text \<open>The body run when a marker matches the line at \<open>idx\<close> (source lines 53 to 59).\<close>

definition answer_split :: "string list \<Rightarrow> nat \<Rightarrow> string \<Rightarrow> string \<times> string" where
  "answer_split lines idx marker =
     (let answer_first_line = strip (drop (length marker) (lines ! idx));
          answer_parts = (if answer_first_line \<noteq> [] then [answer_first_line] else [])
                           @ drop (idx + 1) lines;
          question_text = strip (join_space (take idx lines))
      in (question_text, strip (join_space answer_parts)))"

text \<open>
  The outer loop \<open>for idx, lower_line in enumerate(lower_lines)\<close>, from position
  \<open>idx\<close> on; \<open>None\<close> when the loop ends without returning.
\<close>

fun answer_scan :: "string list \<Rightarrow> nat \<Rightarrow> string list \<Rightarrow> (string \<times> string) option" where
  "answer_scan lines idx [] = None"
| "answer_scan lines idx (lower_line # rest) =
     (case first_marker answer_markers lower_line of
        Some marker \<Rightarrow> Some (answer_split lines idx marker)
      | None \<Rightarrow> answer_scan lines (idx + 1) rest)"

text \<open>
  The loop over the question markers (source lines 63 to 67), which stops at the first
  marker that matches, whatever the stripping leaves.
\<close>

fun strip_question_marker :: "string list \<Rightarrow> string \<Rightarrow> string" where
  "strip_question_marker [] question_line = question_line"
| "strip_question_marker (marker # markers) question_line =
     (if startswith (lower question_line) marker
      then (let trimmed = strip (drop (length marker) question_line)
            in if trimmed \<noteq> [] then trimmed else question_line)
      else strip_question_marker markers question_line)"

definition split_question_answer :: "string \<Rightarrow> string \<times> string" where
  "split_question_answer text =
     (let lines = nonempty_lines text
      in if lines = [] then ([], [])
         else (case answer_scan lines 0 (map lower lines) of
                 Some result \<Rightarrow> result
               | None \<Rightarrow>
                   if length lines > 1
                   then (strip_question_marker question_markers (lines ! 0),
                         strip (join_space (drop 1 lines)))
                   else (lines ! 0, [])))"

section \<open>Paths and the file system\<close>

text \<open>
  A \<open>pathlib\<close> path (POSIX flavour) is the list of its parts, the root first when the
  path is absolute.  Python compares two paths as it compares these lists: by the first
  part that differs, each part compared as a string, a proper prefix coming first.  That
  is the order of lists of strings used by \<open>sort\<close> below.
\<close>

type_synonym path = "string list"

text \<open>\<open>s.split(sep)\<close> for a separator of one character.\<close>

fun split_sep :: "char \<Rightarrow> string \<Rightarrow> string list" where
  "split_sep sep [] = [[]]"
| "split_sep sep (c # cs) =
     (if c = sep then [] # split_sep sep cs
      else (case split_sep sep cs of [] \<Rightarrow> [[c]] | x # xs \<Rightarrow> (c # x) # xs))"

text \<open>
  \<open>Path(raw)\<close>: the root is \<open>//\<close> for exactly two leading slashes and \<open>/\<close> for any
  other number of them; empty parts and \<open>.\<close> parts are dropped.
\<close>

definition path_root :: "string \<Rightarrow> string" where
  "path_root raw =
     (if startswith raw ''/''
      then (if length (takeWhile (\<lambda>c. c = CHR ''/'') raw) = 2 then ''//'' else ''/'')
      else [])"

definition Path :: "string \<Rightarrow> path" where
  "Path raw =
     (if path_root raw \<noteq> [] then [path_root raw] else [])
       @ filter (\<lambda>x. x \<noteq> [] \<and> x \<noteq> ''.'')
           (split_sep (CHR ''/'') (dropWhile (\<lambda>c. c = CHR ''/'') raw))"

text \<open>\<open>path.name\<close>: the last part, unless the path is only its root or is empty.\<close>

definition path_name :: "path \<Rightarrow> string" where
  "path_name p =
     (if length p = (if p \<noteq> [] \<and> startswith (hd p) ''/'' then 1 else 0) then [] else last p)"

text \<open>
  \<open>path.suffix\<close>: with \<open>i = name.rfind('.')\<close>, the slice \<open>name[i:]\<close> when
  \<open>0 < i < len(name) - 1\<close>, and the empty string otherwise.
\<close>

definition suffix :: "path \<Rightarrow> string" where
  "suffix p =
     (let name = path_name p;
          after_dot = rev (takeWhile (\<lambda>c. c \<noteq> CHR ''.'') (rev name))
      in if length after_dot < length name
         then (let i = length name - length after_dot - 1
               in if 0 < i \<and> i + 1 < length name then drop i name else [])
         else [])"

definition IMAGE_EXTENSIONS :: "string set" where
  "IMAGE_EXTENSIONS = {''.png'', ''.jpg'', ''.jpeg'', ''.tiff'', ''.bmp'', ''.gif''}"

text \<open>The test \<open>image_path.suffix.lower() in IMAGE_EXTENSIONS\<close>.\<close>

definition has_image_suffix :: "path \<Rightarrow> bool" where
  "has_image_suffix p = (lower (suffix p) \<in> IMAGE_EXTENSIONS)"

datatype pyerror =
    SystemExit string
  | TesseractNotFoundError
  | NotImplementedError
  | ValueError
  | OSError
  | Other_error string

datatype entry_kind = Regular_file | Directory | Other_entry

text \<open>
  What the run reads from the file system.  \<open>stat_kind p\<close> is the outcome of the
  \<open>stat\<close> call behind \<open>p.is_file()\<close> and \<open>p.is_dir()\<close>: the kind of the entry at \<open>p\<close>,
  \<open>None\<close> when nothing is there or when the call fails with one of the error numbers
  \<open>pathlib\<close> swallows, and an exception for any other \<open>OSError\<close> (a name that is too
  long, for one), which \<open>pathlib\<close> lets through.  \<open>rglob_all p\<close> is the entries
  \<open>p.rglob("*")\<close> yields, in the order it yields them, and \<open>glob_cwd raw\<close> what
  \<open>Path().glob(raw)\<close> yields.  \<open>pathlib\<close> raises instead of yielding for a pattern it
  rejects: \<open>NotImplementedError\<close> for an absolute pattern, \<open>ValueError\<close> for an empty
  or malformed one.
\<close>

record filesystem =
  stat_kind :: "path \<Rightarrow> pyerror + entry_kind option"
  rglob_all :: "path \<Rightarrow> path list"
  glob_cwd :: "string \<Rightarrow> pyerror + path list"

text \<open>\<open>p.is_file()\<close> and \<open>p.is_dir()\<close>: a truth value, or the exception let through.\<close>

definition is_file :: "filesystem \<Rightarrow> path \<Rightarrow> pyerror + bool" where
  "is_file fs p =
     (case stat_kind fs p of Inl e \<Rightarrow> Inl e | Inr kind \<Rightarrow> Inr (kind = Some Regular_file))"

definition is_dir :: "filesystem \<Rightarrow> path \<Rightarrow> pyerror + bool" where
  "is_dir fs p =
     (case stat_kind fs p of Inl e \<Rightarrow> Inl e | Inr kind \<Rightarrow> Inr (kind = Some Directory))"

section \<open>The path collector\<close>

text \<open>
  The loop \<open>for raw in inputs\<close> of \<open>collect_image_paths\<close>, with the list \<open>paths\<close>
  built so far.  \<open>path.is_file()\<close> is asked first, and \<open>path.is_dir()\<close> only when the
  first test fails; an exception of either ends the loop.  Each inner loop appends, in
  sorted order, the entries that pass the suffix test.
\<close>

fun collect_from :: "filesystem \<Rightarrow> path list \<Rightarrow> string list \<Rightarrow> pyerror + path list" where
  "collect_from fs paths [] = Inr paths"
| "collect_from fs paths (raw # inputs) =
     (let path = Path raw
      in case is_file fs path of
           Inl e \<Rightarrow> Inl e
         | Inr file \<Rightarrow>
             if file \<and> has_image_suffix path
             then collect_from fs (paths @ [path]) inputs
             else (case is_dir fs path of
                     Inl e \<Rightarrow> Inl e
                   | Inr dir \<Rightarrow>
                       if dir
                       then collect_from fs
                              (paths @ filter has_image_suffix (sort (rglob_all fs path))) inputs
                       else (case glob_cwd fs raw of
                               Inl e \<Rightarrow> Inl e
                             | Inr matches \<Rightarrow>
                                 collect_from fs
                                   (paths @ filter has_image_suffix (sort matches)) inputs)))"

definition collect_image_paths :: "filesystem \<Rightarrow> string list \<Rightarrow> pyerror + path list" where
  "collect_image_paths fs inputs = collect_from fs [] inputs"

text \<open>What one pass of the loop body appends for the input \<open>raw\<close>, or the exception it raises.\<close>

definition contribution :: "filesystem \<Rightarrow> string \<Rightarrow> pyerror + path list" where
  "contribution fs raw =
     (let path = Path raw
      in case is_file fs path of
           Inl e \<Rightarrow> Inl e
         | Inr file \<Rightarrow>
             if file \<and> has_image_suffix path then Inr [path]
             else (case is_dir fs path of
                     Inl e \<Rightarrow> Inl e
                   | Inr dir \<Rightarrow>
                       if dir then Inr (filter has_image_suffix (sort (rglob_all fs path)))
                       else (case glob_cwd fs raw of
                               Inl e \<Rightarrow> Inl e
                             | Inr matches \<Rightarrow> Inr (filter has_image_suffix (sort matches)))))"

section \<open>OCR and the run\<close>

record qa_record =
  question :: string
  answer :: string

text \<open>
  \<open>Dumps questions indent\<close> stands for the text
  \<open>json.dumps({"questions": questions}, indent=indent, ensure_ascii=False)\<close>.
\<close>

datatype json_text = Dumps "qa_record list" int

text \<open>
  The collaborators of a run.  \<open>which_tesseract\<close> says whether
  \<open>shutil.which("tesseract")\<close> finds the binary; \<open>open_grayscale p\<close> is
  \<open>Image.open(p)\<close> followed by \<open>convert("L")\<close>; \<open>image_to_string\<close> is the engine on
  a grayscale image and a language code; \<open>write_text_error out\<close> is the exception of
  \<open>out.write_text\<close>, if it raises, and \<open>print_error serialized\<close> the exception of
  \<open>print(serialized)\<close>, if it raises (standard output may be closed, or unable to encode
  the text).  Each of them can fail with an exception.
\<close>

record 'img world =
  files :: filesystem
  which_tesseract :: bool
  open_grayscale :: "path \<Rightarrow> pyerror + 'img"
  image_to_string :: "'img \<Rightarrow> string \<Rightarrow> pyerror + string"
  write_text_error :: "path \<Rightarrow> pyerror option"
  print_error :: "json_text \<Rightarrow> pyerror option"

text \<open>What a run does to the outside, in the order it does it.\<close>

datatype event =
    Which_tesseract
  | Collect_paths "string list"
  | Image_open path
  | Image_to_string path string
  | Write_text path json_text
  | Print json_text

type_synonym 'a run = "event list \<times> (pyerror + 'a)"

definition run_ocr :: "'img world \<Rightarrow> path \<Rightarrow> string \<Rightarrow> string run" where
  "run_ocr w image_path language =
     (case open_grayscale w image_path of
        Inl e \<Rightarrow> ([Image_open image_path], Inl e)
      | Inr grayscale_image \<Rightarrow>
          ([Image_open image_path, Image_to_string image_path language],
           (case image_to_string w grayscale_image language of
              Inl e \<Rightarrow>
                if e = TesseractNotFoundError
                then Inl (SystemExit (''Tesseract OCR is not installed or not on PATH. Install it from ''
                       @ ''https://tesseract-ocr.github.io/tessdoc/Installation.html''))
                else Inl e
            | Inr text \<Rightarrow> Inr text)))"

definition ensure_tesseract_available :: "'img world \<Rightarrow> unit run" where
  "ensure_tesseract_available w =
     ([Which_tesseract],
      if which_tesseract w then Inr ()
      else Inl (SystemExit (''Tesseract OCR binary not found on PATH. Install it and try again. ''
             @ ''See https://tesseract-ocr.github.io/tessdoc/Installation.html for instructions.'')))"

text \<open>
  The loop \<open>for image_path in image_paths\<close> of \<open>build_questions\<close>, with the events so
  far and the list \<open>questions\<close> built so far.
\<close>

fun build_from ::
  "'img world \<Rightarrow> string \<Rightarrow> event list \<Rightarrow> qa_record list \<Rightarrow> path list \<Rightarrow> qa_record list run"
where
  "build_from w language tr questions [] = (tr, Inr questions)"
| "build_from w language tr questions (image_path # rest) =
     (case run_ocr w image_path language of
        (ev, Inl e) \<Rightarrow> (tr @ ev, Inl e)
      | (ev, Inr text) \<Rightarrow>
          (case split_question_answer text of
             (q, a) \<Rightarrow>
               build_from w language (tr @ ev)
                 (questions @ [\<lparr>question = q, answer = a\<rparr>]) rest))"

definition build_questions :: "'img world \<Rightarrow> path list \<Rightarrow> string \<Rightarrow> qa_record list run" where
  "build_questions w image_paths language = build_from w language [] [] image_paths"

text \<open>
  The parsed command line; \<open>inputs\<close> has at least one element (\<open>nargs="+"\<close>) and
  \<open>output_file\<close> is the option \<open>--output\<close>.
\<close>

record cli_args =
  inputs :: "string list"
  lang :: string
  output_file :: "path option"
  indent :: int

definition main :: "'img world \<Rightarrow> cli_args \<Rightarrow> unit run" where
  "main w args =
     (case ensure_tesseract_available w of
        (tr0, Inl e) \<Rightarrow> (tr0, Inl e)
      | (tr0, Inr _) \<Rightarrow>
          (case collect_image_paths (files w) (inputs args) of
             Inl e \<Rightarrow> (tr0 @ [Collect_paths (inputs args)], Inl e)
           | Inr image_paths \<Rightarrow>
               if image_paths = []
               then (tr0 @ [Collect_paths (inputs args)],
                     Inl (SystemExit ''No matching image files found.''))
               else
                 (case build_questions w image_paths (lang args) of
                    (tr1, Inl e) \<Rightarrow> (tr0 @ Collect_paths (inputs args) # tr1, Inl e)
                  | (tr1, Inr questions) \<Rightarrow>
                      (let serialized = Dumps questions (indent args)
                       in case output_file args of
                            Some out \<Rightarrow>
                              (case write_text_error w out of
                                 Some e \<Rightarrow> (tr0 @ Collect_paths (inputs args) # tr1, Inl e)
                               | None \<Rightarrow>
                                   (tr0 @ Collect_paths (inputs args) # tr1
                                      @ [Write_text out serialized], Inr ()))
                          | None \<Rightarrow>
                              (case print_error w serialized of
                                 Some e \<Rightarrow> (tr0 @ Collect_paths (inputs args) # tr1, Inl e)
                               | None \<Rightarrow>
                                   (tr0 @ Collect_paths (inputs args) # tr1
                                      @ [Print serialized], Inr ()))))))"

text \<open>The documents a run has written or printed.\<close>

fun emitted :: "event list \<Rightarrow> json_text list" where
  "emitted [] = []"
| "emitted (Write_text out d # tr) = d # emitted tr"
| "emitted (Print d # tr) = d # emitted tr"
| "emitted (_ # tr) = emitted tr"

section \<open>Directory trees\<close>

text \<open>
  A directory tree, each directory listing its entries by name in the order the system
  lists them.  \<open>entries_of t p\<close> is every entry below a tree \<open>t\<close> found at path \<open>p\<close>, a
  directory before its contents; \<open>sort_levels\<close> sorts the listing of every directory by
  name, so that \<open>entries_of (sort_levels t) p\<close> is the recursive traversal that visits
  each level in sorted order.
\<close>

datatype node = File_node | Dir_node "(string \<times> node) list"

primrec entries_of :: "node \<Rightarrow> path \<Rightarrow> path list" where
  "entries_of File_node p = []"
| "entries_of (Dir_node children) p =
     concat (map (\<lambda>(name, below). (p @ [name]) # below (p @ [name]))
               (map (map_prod id entries_of) children))"

primrec sort_levels :: "node \<Rightarrow> node" where
  "sort_levels File_node = File_node"
| "sort_levels (Dir_node children) =
     Dir_node (sort_key fst (map (map_prod id sort_levels) children))"

text \<open>No directory lists a name twice.\<close>

primrec distinct_names :: "node \<Rightarrow> bool" where
  "distinct_names File_node = True"
| "distinct_names (Dir_node children) =
     (distinct (map fst children) \<and> list_all snd (map (map_prod id distinct_names) children))"

primrec lookup :: "node \<Rightarrow> path \<Rightarrow> node option" where
  "lookup File_node p = (if p = [] then Some File_node else None)"
| "lookup (Dir_node children) p =
     (case p of
        [] \<Rightarrow> Some (Dir_node children)
      | name # rest \<Rightarrow>
          (case map_of (map (map_prod id lookup) children) name of
             None \<Rightarrow> None
           | Some below \<Rightarrow> below rest))"

text \<open>
  The file system that a tree rooted at the working directory gives, with the results of
  \<open>Path().glob\<close> supplied apart.  A path with a part of more than 255 characters makes
  \<open>stat\<close> fail with an \<open>OSError\<close> that \<open>pathlib\<close> lets through.
\<close>

definition tree_fs :: "node \<Rightarrow> (string \<Rightarrow> pyerror + path list) \<Rightarrow> filesystem" where
  "tree_fs root glob =
     \<lparr>stat_kind = (\<lambda>p. if list_ex (\<lambda>part. 255 < length part) p then Inl OSError
                         else Inr (case lookup root p of
                                     None \<Rightarrow> None
                                   | Some File_node \<Rightarrow> Some Regular_file
                                   | Some (Dir_node _) \<Rightarrow> Some Directory)),
      rglob_all = (\<lambda>p. case lookup root p of None \<Rightarrow> [] | Some t \<Rightarrow> entries_of t p),
      glob_cwd = glob\<rparr>"

section \<open>An example run\<close>

text \<open>
  A working directory with a file \<open>notes.png\<close> that is no image, a directory
  \<open>photos\<close> holding \<open>a.PNG\<close>, \<open>b.txt\<close> and \<open>c.jpeg\<close>, and a directory \<open>scans\<close> that
  holds, among files, a directory named \<open>page.png\<close>.
\<close>

definition example_root :: node where
  "example_root = Dir_node
     [(''scans'', Dir_node
         [(''page.png'', Dir_node [(''x.gif'', File_node)]),
          (''a.jpg'', File_node),
          (''a'', Dir_node [(''z.bmp'', File_node)]),
          (''B.jpg'', File_node)]),
      (''photos'', Dir_node
         [(''c.jpeg'', File_node), (''b.txt'', File_node), (''a.PNG'', File_node)]),
      (''notes.png'', File_node)]"

definition example_glob :: "string \<Rightarrow> pyerror + path list" where
  "example_glob raw =
     (if startswith raw ''/'' then Inl NotImplementedError
      else if raw = ''*.png'' then Inr [[''notes.png'']]
      else if raw = ''*/*.jpg'' then Inr [[''scans'', ''a.jpg''], [''scans'', ''B.jpg'']]
      else Inr [])"

definition example_fs :: filesystem where
  "example_fs = tree_fs example_root example_glob"

text \<open>
  The engine is installed; an image is identified with its path; \<open>notes.png\<close> and
  directories do not open as images.
\<close>

definition example_world :: "path world" where
  "example_world =
     \<lparr>files = example_fs,
      which_tesseract = True,
      open_grayscale = (\<lambda>p. if p = [''notes.png''] then Inl (Other_error ''UnidentifiedImageError'')
                            else if is_file example_fs p = Inr True then Inr p else Inl OSError),
      image_to_string = (\<lambda>img language.
         if img = [''photos'', ''a.PNG''] then Inr ''What is 2+2?\<newline>Answer: 4''
         else if img = [''photos'', ''c.jpeg''] then Inr ''Q: Define entropy\<newline>A measure of disorder''
         else Inr ''Just one line here''),
      write_text_error = (\<lambda>out. None),
      print_error = (\<lambda>serialized. None)\<rparr>"


text \<open>
  A line as the splitter keeps it: not empty, no whitespace at either end, no line
  boundary inside.
\<close>

definition clean_line :: "string \<Rightarrow> bool" where
  "clean_line l = (l \<noteq> [] \<and> \<not> is_space (hd l) \<and> \<not> is_space (last l) \<and> (\<forall>c\<in>set l. \<not> is_linebreak c))"


section \<open>Facts about the string operations\<close>

lemma rstrip_prefix: "s = rstrip s @ rev (takeWhile is_space (rev s))"
proof -
  have "rstrip s @ rev (takeWhile is_space (rev s))
      = rev (takeWhile is_space (rev s) @ dropWhile is_space (rev s))"
    by (simp only: rstrip_def rev_append)
  also have "\<dots> = rev (rev s)"
    by (simp only: takeWhile_dropWhile_id)
  finally show ?thesis
    by simp
qed

lemma last_rstrip: "rstrip s \<noteq> [] \<Longrightarrow> \<not> is_space (last (rstrip s))"
proof -
  assume ne: "rstrip s \<noteq> []"
  then have "dropWhile is_space (rev s) \<noteq> []"
    by (simp add: rstrip_def)
  then have "\<not> is_space (hd (dropWhile is_space (rev s)))"
    by (rule hd_dropWhile)
  moreover have "last (rstrip s) = hd (dropWhile is_space (rev s))"
    using ne by (simp add: rstrip_def last_rev)
  ultimately show ?thesis by simp
qed

lemma hd_rstrip: "rstrip s \<noteq> [] \<Longrightarrow> hd (rstrip s) = hd s"
  using rstrip_prefix [of s] by (metis hd_append2)

lemma hd_lstrip: "lstrip s \<noteq> [] \<Longrightarrow> \<not> is_space (hd (lstrip s))"
  unfolding lstrip_def by (rule hd_dropWhile)

lemma rstrip_Nil [simp]: "rstrip [] = []"
  by (simp add: rstrip_def)

lemma strip_ends:
  assumes "strip s \<noteq> []"
  shows "\<not> is_space (hd (strip s))" and "\<not> is_space (last (strip s))"
proof -
  from assms have ne: "lstrip s \<noteq> []"
    by (auto simp: strip_def)
  from assms have "hd (strip s) = hd (lstrip s)"
    unfolding strip_def by (rule hd_rstrip)
  with hd_lstrip [OF ne] show "\<not> is_space (hd (strip s))"
    by simp
  from assms show "\<not> is_space (last (strip s))"
    unfolding strip_def by (rule last_rstrip)
qed

lemma strip_fixed:
  assumes "s \<noteq> []" and "\<not> is_space (hd s)" and "\<not> is_space (last s)"
  shows "strip s = s"
proof -
  from assms(1,2) have l: "lstrip s = s"
    by (cases s) (simp_all add: lstrip_def)
  from assms(1,3) have "rstrip s = s"
    by (cases s rule: rev_cases) (simp_all add: rstrip_def)
  then show ?thesis
    by (simp add: strip_def l)
qed

lemma strip_idem: "strip (strip s) = strip s"
proof (cases "strip s = []")
  case True
  then show ?thesis by (simp add: strip_def lstrip_def)
next
  case False
  then show ?thesis
    using strip_ends [OF False] by (intro strip_fixed) simp_all
qed

lemma set_strip: "set (strip s) \<subseteq> set s"
proof -
  have "set (rstrip t) \<subseteq> set t" for t
    using set_dropWhileD [of _ is_space "rev t"] by (auto simp: rstrip_def)
  moreover have "set (lstrip s) \<subseteq> set s"
    by (auto simp: lstrip_def dest: set_dropWhileD)
  ultimately show ?thesis
    unfolding strip_def by blast
qed



lemma splitlines_no_linebreak:
  "l \<in> set (splitlines s) \<Longrightarrow> c \<in> set l \<Longrightarrow> \<not> is_linebreak c"
proof (induction s arbitrary: l rule: splitlines.induct)
  case 1
  then show ?case by simp
next
  case (2 d ds)
  from "2.prems"(1) consider "l = takeWhile (\<lambda>x. \<not> is_linebreak x) (d # ds)"
    | "l \<in> set (splitlines (skip_boundary (dropWhile (\<lambda>x. \<not> is_linebreak x) (d # ds))))"
    by auto
  then show ?case
  proof cases
    case 1
    with "2.prems"(2) show ?thesis
      by (auto dest: set_takeWhileD)
  next
    case 2
    then show ?thesis
      using "2.IH" "2.prems"(2) by blast
  qed
qed


lemma linebreak_is_space: "is_linebreak c \<Longrightarrow> is_space c"
  by (auto simp: is_linebreak_def is_space_def Let_def)

lemma space_not_linebreak: "\<not> is_linebreak (CHR '' '')"
  by (simp add: is_linebreak_def)

lemma nonempty_lines_clean: "l \<in> set (nonempty_lines text) \<Longrightarrow> clean_line l"
proof -
  assume "l \<in> set (nonempty_lines text)"
  then obtain r where r: "r \<in> set (splitlines text)" and ne: "strip r \<noteq> []" and l: "l = strip r"
    by (auto simp: nonempty_lines_def)
  have "\<forall>c\<in>set l. \<not> is_linebreak c"
    using set_strip [of r] splitlines_no_linebreak [OF r] l by blast
  then show ?thesis
    using strip_ends [OF ne] ne l by (simp add: clean_line_def)
qed

lemma clean_line_strip: "clean_line l \<Longrightarrow> strip l = l"
  by (simp add: clean_line_def strip_fixed)

lemma join_space_ends:
  "ls \<noteq> [] \<Longrightarrow> \<forall>l\<in>set ls. l \<noteq> [] \<Longrightarrow>
     join_space ls \<noteq> [] \<and> hd (join_space ls) = hd (hd ls) \<and> last (join_space ls) = last (last ls)"
  by (induction ls rule: join_space.induct) auto

lemma set_join_space: "set (join_space ls) \<subseteq> insert (CHR '' '') (\<Union> (set ` set ls))"
  by (induction ls rule: join_space.induct) auto

lemma strip_join_clean:
  assumes "\<forall>l\<in>set ls. clean_line l"
  shows "strip (join_space ls) = join_space ls"
proof (cases "ls = []")
  case True
  then show ?thesis by (simp add: strip_def lstrip_def)
next
  case False
  from assms have ne: "\<forall>l\<in>set ls. l \<noteq> []"
    by (simp add: clean_line_def)
  from False assms have "clean_line (hd ls)" "clean_line (last ls)"
    by simp_all
  then show ?thesis
    using join_space_ends [OF False ne] by (intro strip_fixed) (simp_all add: clean_line_def)
qed

lemma no_linebreak_join:
  assumes "\<forall>l\<in>set ls. \<forall>c\<in>set l. \<not> is_linebreak c"
  shows "\<forall>c\<in>set (join_space ls). \<not> is_linebreak c"
  using assms set_join_space [of ls] space_not_linebreak by auto

section \<open>The splitter: the answer marker branch\<close>

lemma first_marker_None:
  "first_marker ms l = None \<longleftrightarrow> (\<forall>m\<in>set ms. \<not> startswith l m)"
  by (induction ms) auto



lemma answer_scan_None:
  "answer_scan lines idx lws = None \<longleftrightarrow> (\<forall>l\<in>set lws. first_marker answer_markers l = None)"
  by (induction lws arbitrary: idx) (auto split: option.splits)

lemma answer_scan_Some:
  "answer_scan lines idx lws = Some r
     \<Longrightarrow> \<exists>i m. idx \<le> i \<and> i < idx + length lws \<and> r = answer_split lines i m"
proof (induction lws arbitrary: idx)
  case Nil
  then show ?case by simp
next
  case (Cons lw lws)
  show ?case
  proof (cases "first_marker answer_markers lw")
    case None
    with Cons.prems have "answer_scan lines (idx + 1) lws = Some r"
      by simp
    from Cons.IH [OF this] obtain i m
      where "idx + 1 \<le> i" "i < idx + 1 + length lws" "r = answer_split lines i m"
      by blast
    then show ?thesis
      by (intro exI [of _ i] exI [of _ m]) simp
  next
    case (Some m)
    with Cons.prems have "r = answer_split lines idx m"
      by simp
    then show ?thesis
      by (intro exI [of _ idx] exI [of _ m]) simp
  qed
qed



section \<open>The splitter: no answer marker\<close>

lemma no_marker_scan:
  assumes "\<forall>l\<in>set ls. \<forall>m\<in>set answer_markers. \<not> startswith (lower l) m"
  shows "answer_scan ls idx (map lower ls) = None"
  using assms by (simp add: answer_scan_None first_marker_None)

lemma strip_question_marker_none:
  "\<forall>m\<in>set ms. \<not> startswith (lower l) m \<Longrightarrow> strip_question_marker ms l = l"
  by (induction ms) auto

lemma strip_question_marker_index:
  "k < length ms \<Longrightarrow> startswith (lower l) (ms ! k) \<Longrightarrow> \<forall>k'<k. \<not> startswith (lower l) (ms ! k')
     \<Longrightarrow> strip_question_marker ms l =
          (let trimmed = strip (drop (length (ms ! k)) l) in if trimmed = [] then l else trimmed)"
proof (induction ms arbitrary: k)
  case Nil
  then show ?case by simp
next
  case (Cons m ms)
  show ?case
  proof (cases k)
    case 0
    with Cons.prems show ?thesis by (simp add: Let_def)
  next
    case (Suc k0)
    with Cons.prems have "\<not> startswith (lower l) m"
      by auto
    moreover have "strip_question_marker ms l =
        (let trimmed = strip (drop (length (ms ! k0)) l) in if trimmed = [] then l else trimmed)"
      using Cons.prems Suc by (intro Cons.IH) auto
    ultimately show ?thesis
      using Suc by simp
  qed
qed

text \<open>
  Claim C2.  Let the text have more than one trimmed non-empty line, none of them starting,
  lower-cased, with an answer marker.  Then the answer is the lines after the first joined
  by single spaces.  The question is the first line when no question marker starts it;
  when the first of \<open>question:\<close>, \<open>q:\<close>, \<open>q.\<close> to match is at index \<open>k\<close>, the question
  is the first line after that marker, stripped, or the whole first line when the
  stripping leaves nothing.
\<close>

theorem split_without_answer_marker:
  assumes "length (nonempty_lines text) > 1"
    and "\<forall>l\<in>set (nonempty_lines text). \<forall>m\<in>set answer_markers. \<not> startswith (lower l) m"
  shows "snd (split_question_answer text) = join_space (tl (nonempty_lines text))
    \<and> ((\<forall>m\<in>set question_markers. \<not> startswith (lower (hd (nonempty_lines text))) m)
          \<longrightarrow> fst (split_question_answer text) = hd (nonempty_lines text))
    \<and> (\<forall>k<length question_markers.
          startswith (lower (hd (nonempty_lines text))) (question_markers ! k)
          \<and> (\<forall>k'<k. \<not> startswith (lower (hd (nonempty_lines text))) (question_markers ! k'))
          \<longrightarrow> fst (split_question_answer text) =
                (let stripped = strip (drop (length (question_markers ! k)) (hd (nonempty_lines text)))
                 in if stripped = [] then hd (nonempty_lines text) else stripped))"
proof -
  let ?ls = "nonempty_lines text"
  from assms(1) have ne: "?ls \<noteq> []"
    by auto
  have scan: "answer_scan ?ls 0 (map lower ?ls) = None"
    using assms(2) by (rule no_marker_scan)
  have hd0: "?ls ! 0 = hd ?ls"
    using ne by (simp add: hd_conv_nth)
  have res: "split_question_answer text =
      (strip_question_marker question_markers (hd ?ls), strip (join_space (drop 1 ?ls)))"
    using ne scan assms(1) hd0 by (simp add: split_question_answer_def Let_def)
  have "\<forall>l\<in>set (tl ?ls). clean_line l"
    using nonempty_lines_clean [of _ "text"] ne by (auto dest: list.set_sel(2))
  then have "strip (join_space (tl ?ls)) = join_space (tl ?ls)"
    by (rule strip_join_clean)
  then have answer: "snd (split_question_answer text) = join_space (tl ?ls)"
    by (simp add: res drop_Suc)
  have q_none: "fst (split_question_answer text) = hd ?ls"
    if "\<forall>m\<in>set question_markers. \<not> startswith (lower (hd ?ls)) m"
    using that by (simp add: res strip_question_marker_none)
  have q_some: "fst (split_question_answer text) =
      (let stripped = strip (drop (length (question_markers ! k)) (hd ?ls))
       in if stripped = [] then hd ?ls else stripped)"
    if "k < length question_markers" "startswith (lower (hd ?ls)) (question_markers ! k)"
       "\<forall>k'<k. \<not> startswith (lower (hd ?ls)) (question_markers ! k')" for k
    using that by (simp add: res strip_question_marker_index)
  from answer q_none q_some show ?thesis
    by blast
qed

text \<open>
  The theorem at \<open>Q: Define entropy\<close> over \<open>A measure of disorder\<close>, at a first line
  that is only the marker \<open>Q.\<close>, and at three lines with no marker.
\<close>

theorem split_without_answer_marker_witness:
  "split_question_answer ''Q: Define entropy\<newline>A measure of disorder''
     = (''Define entropy'', ''A measure of disorder'')
   \<and> split_question_answer ''Q.\<newline>A measure of disorder'' = (''Q.'', ''A measure of disorder'')
   \<and> split_question_answer ''Define entropy\<newline>A measure\<newline>of disorder''
     = (''Define entropy'', ''A measure of disorder'')"
proof -
  let ?t1 = "''Q: Define entropy\<newline>A measure of disorder''"
  let ?t2 = "''Q.\<newline>A measure of disorder''"
  let ?t3 = "''Define entropy\<newline>A measure\<newline>of disorder''"
  have n1: "nonempty_lines ?t1 = [''Q: Define entropy'', ''A measure of disorder'']"
    and n2: "nonempty_lines ?t2 = [''Q.'', ''A measure of disorder'']"
    and n3: "nonempty_lines ?t3 = [''Define entropy'', ''A measure'', ''of disorder'']"
    by code_simp+
  have l1: "lower ''Q: Define entropy'' = ''q: define entropy''"
    and l2: "lower ''A measure of disorder'' = ''a measure of disorder''"
    and l3: "lower ''Q.'' = ''q.''"
    and l4: "lower ''Define entropy'' = ''define entropy''"
    and l5: "lower ''A measure'' = ''a measure''"
    and l6: "lower ''of disorder'' = ''of disorder''"
    by code_simp+
  have s1: "strip '' Define entropy'' = ''Define entropy''" and s2: "strip [] = []"
    by code_simp+
  have e1: "split_question_answer ?t1 = (''Define entropy'', ''A measure of disorder'')"
    using split_without_answer_marker [of ?t1]
    by (simp add: n1 l1 l2 question_markers_def All_less_Suc startswith_def answer_markers_def s1 prod_eq_iff)
  have e2: "split_question_answer ?t2 = (''Q.'', ''A measure of disorder'')"
    using split_without_answer_marker [of ?t2]
    by (simp add: n2 l3 l2 question_markers_def All_less_Suc startswith_def answer_markers_def s2 prod_eq_iff)
  have e3: "split_question_answer ?t3 = (''Define entropy'', ''A measure of disorder'')"
    using split_without_answer_marker [of ?t3]
    by (simp add: n3 l4 l5 l6 startswith_def answer_markers_def question_markers_def prod_eq_iff)
  from e1 e2 e3 show ?thesis
    by (intro conjI)
qed

section \<open>The splitter: at most one line\<close>





section \<open>The splitter: what every result satisfies\<close>

lemma strip_question_marker_clean:
  assumes "clean_line l"
  shows "strip (strip_question_marker ms l) = strip_question_marker ms l
    \<and> set (strip_question_marker ms l) \<subseteq> set l"
proof (induction ms)
  case Nil
  from assms show ?case
    by (simp add: clean_line_strip)
next
  case (Cons m ms)
  have "set (strip (drop (length m) l)) \<subseteq> set l"
    using set_strip [of "drop (length m) l"] set_drop_subset [of "length m" l] by blast
  with Cons assms show ?case
    by (simp add: Let_def strip_idem clean_line_strip)
qed

lemma answer_split_trimmed:
  assumes "\<forall>l\<in>set ls. clean_line l" and "i < length ls"
  shows "strip (fst (answer_split ls i m)) = fst (answer_split ls i m)"
    and "strip (snd (answer_split ls i m)) = snd (answer_split ls i m)"
    and "\<forall>c\<in>set (fst (answer_split ls i m)) \<union> set (snd (answer_split ls i m)). \<not> is_linebreak c"
proof -
  let ?first = "strip (drop (length m) (ls ! i))"
  let ?parts = "(if ?first \<noteq> [] then [?first] else []) @ drop (i + 1) ls"
  have fst_eq: "fst (answer_split ls i m) = strip (join_space (take i ls))"
    and snd_eq: "snd (answer_split ls i m) = strip (join_space ?parts)"
    by (simp_all add: answer_split_def Let_def)
  show "strip (fst (answer_split ls i m)) = fst (answer_split ls i m)"
    by (simp add: fst_eq strip_idem)
  show "strip (snd (answer_split ls i m)) = snd (answer_split ls i m)"
    by (simp only: snd_eq strip_idem)
  have nl: "\<forall>c\<in>set l. \<not> is_linebreak c" if "l \<in> set ls" for l
    using assms(1) that by (simp add: clean_line_def)
  have "ls ! i \<in> set ls"
    using assms(2) by simp
  then have "\<forall>c\<in>set (ls ! i). \<not> is_linebreak c"
    by (rule nl)
  moreover have "set ?first \<subseteq> set (ls ! i)"
    using set_strip [of "drop (length m) (ls ! i)"] set_drop_subset [of "length m" "ls ! i"]
    by blast
  ultimately have first: "\<forall>c\<in>set ?first. \<not> is_linebreak c"
    by blast
  have "\<forall>l\<in>set ?parts. \<forall>c\<in>set l. \<not> is_linebreak c"
    using first nl by (auto dest: in_set_dropD)
  then have "\<forall>c\<in>set (join_space ?parts). \<not> is_linebreak c"
    by (rule no_linebreak_join)
  then have a: "\<forall>c\<in>set (snd (answer_split ls i m)). \<not> is_linebreak c"
    unfolding snd_eq using set_strip [of "join_space ?parts"] by blast
  have "\<forall>l\<in>set (take i ls). \<forall>c\<in>set l. \<not> is_linebreak c"
    using nl by (auto dest: in_set_takeD)
  then have "\<forall>c\<in>set (join_space (take i ls)). \<not> is_linebreak c"
    by (rule no_linebreak_join)
  then have q: "\<forall>c\<in>set (fst (answer_split ls i m)). \<not> is_linebreak c"
    unfolding fst_eq using set_strip [of "join_space (take i ls)"] by blast
  from q a show "\<forall>c\<in>set (fst (answer_split ls i m)) \<union> set (snd (answer_split ls i m)). \<not> is_linebreak c"
    by blast
qed

text \<open>
  Claim C10.  On every return path, each of the two strings returned equals its own
  \<open>strip\<close> and contains no line boundary, so no newline and no carriage return.
\<close>

theorem split_results_trimmed:
  "strip (fst (split_question_answer text)) = fst (split_question_answer text)
   \<and> strip (snd (split_question_answer text)) = snd (split_question_answer text)
   \<and> (\<forall>c\<in>set (fst (split_question_answer text)) \<union> set (snd (split_question_answer text)).
         \<not> is_linebreak c)"
proof -
  let ?ls = "nonempty_lines text"
  have clean: "\<forall>l\<in>set ?ls. clean_line l"
    by (simp add: nonempty_lines_clean)
  have empty: "strip [] = []"
    by (simp add: strip_def lstrip_def)
  show ?thesis
  proof (cases "?ls = []")
    case True
    then show ?thesis
      by (simp add: split_question_answer_def empty)
  next
    case ne: False
    then have hd_in: "?ls ! 0 \<in> set ?ls"
      by simp
    then have hd_clean: "clean_line (?ls ! 0)"
      using clean by blast
    show ?thesis
    proof (cases "answer_scan ?ls 0 (map lower ?ls)")
      case (Some r)
      then obtain i m where "i < length ?ls" and r: "r = answer_split ?ls i m"
        using answer_scan_Some [of ?ls 0 "map lower ?ls" r] by auto
      with clean have "strip (fst r) = fst r" "strip (snd r) = snd r"
          "\<forall>c\<in>set (fst r) \<union> set (snd r). \<not> is_linebreak c"
        using answer_split_trimmed [of ?ls i m] by simp_all
      moreover have "split_question_answer text = r"
        using ne Some by (simp add: split_question_answer_def)
      ultimately show ?thesis
        by simp
    next
      case None
      show ?thesis
      proof (cases "length ?ls > 1")
        case True
        let ?q = "strip_question_marker question_markers (?ls ! 0)"
        let ?a = "strip (join_space (drop 1 ?ls))"
        have res: "split_question_answer text = (?q, ?a)"
          using ne None True by (simp add: split_question_answer_def Let_def)
        have q: "strip ?q = ?q" "set ?q \<subseteq> set (?ls ! 0)"
          using strip_question_marker_clean [OF hd_clean] by simp_all
        then have qn: "\<forall>c\<in>set ?q. \<not> is_linebreak c"
          using hd_clean by (auto simp: clean_line_def)
        have "\<forall>l\<in>set (drop 1 ?ls). \<forall>c\<in>set l. \<not> is_linebreak c"
          using clean by (auto simp: clean_line_def dest: in_set_dropD)
        then have "\<forall>c\<in>set (join_space (drop 1 ?ls)). \<not> is_linebreak c"
          by (rule no_linebreak_join)
        then have an: "\<forall>c\<in>set ?a. \<not> is_linebreak c"
          using set_strip [of "join_space (drop 1 ?ls)"] by blast
        from q(1) qn an show ?thesis
          unfolding res by (simp add: strip_idem) blast
      next
        case False
        then have res: "split_question_answer text = (?ls ! 0, [])"
          using ne None by (simp add: split_question_answer_def Let_def)
        from hd_clean show ?thesis
          unfolding res by (simp add: clean_line_strip empty clean_line_def)
      qed
    qed
  qed
qed

text \<open>The theorem at a text with padded lines, a blank line and the marker \<open>a:\<close>.\<close>

theorem split_results_trimmed_witness:
  "strip (fst (split_question_answer ''  Topic \<newline>\<newline> a:  yes  \<newline> indeed ''))
     = fst (split_question_answer ''  Topic \<newline>\<newline> a:  yes  \<newline> indeed '')
   \<and> CHR 0x0A \<notin> set (snd (split_question_answer ''  Topic \<newline>\<newline> a:  yes  \<newline> indeed ''))"
proof -
  have "is_linebreak CHR 0x0A"
    by code_simp
  then show ?thesis
    using split_results_trimmed [of "''  Topic \<newline>\<newline> a:  yes  \<newline> indeed ''"] by blast
qed

section \<open>The collector: one input after the other\<close>

lemma collect_from_Cons:
  "collect_from fs paths (raw # raws) =
     (case contribution fs raw of
        Inl e \<Rightarrow> Inl e
      | Inr found \<Rightarrow> collect_from fs (paths @ found) raws)"
  by (simp add: contribution_def Let_def split: sum.splits)

lemma collect_from_acc:
  "collect_from fs paths raws =
     (case collect_from fs [] raws of Inl e \<Rightarrow> Inl e | Inr found \<Rightarrow> Inr (paths @ found))"
proof (induction raws arbitrary: paths)
  case Nil
  show ?case by simp
next
  case (Cons raw raws)
  show ?case
  proof (cases "contribution fs raw")
    case (Inl e)
    then show ?thesis
      by (simp only: collect_from_Cons sum.case)
  next
    case (Inr found)
    have "collect_from fs (paths @ found) raws =
        (case collect_from fs [] raws of Inl e \<Rightarrow> Inl e | Inr rest \<Rightarrow> Inr ((paths @ found) @ rest))"
      by (rule Cons.IH)
    moreover have "collect_from fs ([] @ found) raws =
        (case collect_from fs [] raws of Inl e \<Rightarrow> Inl e | Inr rest \<Rightarrow> Inr (found @ rest))"
      using Cons.IH [of found] by simp
    ultimately show ?thesis
      by (simp only: collect_from_Cons Inr sum.case) (simp split: sum.splits)
  qed
qed

lemma collect_from_append:
  "collect_from fs paths (xs @ ys) =
     (case collect_from fs paths xs of Inl e \<Rightarrow> Inl e | Inr found \<Rightarrow> collect_from fs found ys)"
proof (induction xs arbitrary: paths)
  case Nil
  show ?case by simp
next
  case (Cons raw xs)
  show ?case
    by (simp only: append_Cons collect_from_Cons Cons.IH) (simp split: sum.splits)
qed

text \<open>
  Claim C4.  Collecting from the inputs \<open>xs\<close> followed by \<open>ys\<close> gives what collecting from
  \<open>xs\<close> gives followed by what collecting from \<open>ys\<close> gives, and raises when either
  raises.  Nothing is removed: a path occurs in the result as often as in the two parts
  together, so a file matched by two inputs is there twice.
\<close>

theorem collect_image_paths_append:
  "collect_image_paths fs (xs @ ys) =
     (case collect_image_paths fs xs of
        Inl e \<Rightarrow> Inl e
      | Inr first \<Rightarrow>
          (case collect_image_paths fs ys of
             Inl e \<Rightarrow> Inl e
           | Inr second \<Rightarrow> Inr (first @ second)))
   \<and> (\<forall>first second. collect_image_paths fs xs = Inr first \<and> collect_image_paths fs ys = Inr second
         \<longrightarrow> collect_image_paths fs (xs @ ys) = Inr (first @ second)
           \<and> (\<forall>p. count_list (first @ second) p = count_list first p + count_list second p))"
proof -
  have "collect_image_paths fs (xs @ ys) =
      (case collect_image_paths fs xs of Inl e \<Rightarrow> Inl e | Inr first \<Rightarrow> collect_from fs first ys)"
    unfolding collect_image_paths_def by (rule collect_from_append)
  also have "\<dots> =
      (case collect_image_paths fs xs of
         Inl e \<Rightarrow> Inl e
       | Inr first \<Rightarrow>
           (case collect_image_paths fs ys of
              Inl e \<Rightarrow> Inl e
            | Inr second \<Rightarrow> Inr (first @ second)))"
  proof (cases "collect_image_paths fs xs")
    case (Inl e)
    then show ?thesis by simp
  next
    case (Inr first)
    then show ?thesis
      using collect_from_acc [of fs first ys] by (simp add: collect_image_paths_def)
  qed
  finally have eq: "collect_image_paths fs (xs @ ys) =
      (case collect_image_paths fs xs of
         Inl e \<Rightarrow> Inl e
       | Inr first \<Rightarrow>
           (case collect_image_paths fs ys of
              Inl e \<Rightarrow> Inl e
            | Inr second \<Rightarrow> Inr (first @ second)))" .
  show ?thesis
  proof (intro conjI allI impI)
    show "collect_image_paths fs (xs @ ys) =
      (case collect_image_paths fs xs of
         Inl e \<Rightarrow> Inl e
       | Inr first \<Rightarrow>
           (case collect_image_paths fs ys of
              Inl e \<Rightarrow> Inl e
            | Inr second \<Rightarrow> Inr (first @ second)))"
      by (rule eq)
  next
    fix first second
    assume "collect_image_paths fs xs = Inr first \<and> collect_image_paths fs ys = Inr second"
    then show "collect_image_paths fs (xs @ ys) = Inr (first @ second)"
      by (simp add: eq)
  next
    fix first second p
    show "count_list (first @ second) p = count_list first p + count_list second p"
      by simp
  qed
qed

text \<open>
  The theorem in the example directory: \<open>notes.png\<close>, named as a file and matched again
  by the pattern \<open>*.png\<close>, is collected twice.
\<close>

theorem collect_image_paths_append_witness:
  "collect_image_paths example_fs [''notes.png'', ''photos''] = Inr [[''notes.png''], [''photos'', ''a.PNG''], [''photos'', ''c.jpeg'']]
   \<and> collect_image_paths example_fs [''*.png'', ''nosuch''] = Inr [[''notes.png'']]
   \<and> collect_image_paths example_fs ([''notes.png'', ''photos''] @ [''*.png'', ''nosuch''])
       = Inr [[''notes.png''], [''photos'', ''a.PNG''], [''photos'', ''c.jpeg''], [''notes.png'']]
   \<and> count_list [[''notes.png''], [''photos'', ''a.PNG''], [''photos'', ''c.jpeg''], [''notes.png'']]
        [''notes.png''] = 2"
proof -
  have a: "collect_image_paths example_fs [''notes.png'', ''photos'']
      = Inr [[''notes.png''], [''photos'', ''a.PNG''], [''photos'', ''c.jpeg'']]"
    by code_simp
  have b: "collect_image_paths example_fs [''*.png'', ''nosuch''] = Inr [[''notes.png'']]"
    by code_simp
  show ?thesis
    using collect_image_paths_append [of example_fs "[''notes.png'', ''photos'']" "[''*.png'', ''nosuch'']"]
    by (simp add: a b)
qed

section \<open>The collector: the order of a directory\<close>

lemma entries_of_Dir:
  "entries_of (Dir_node cs) p =
     concat (map (\<lambda>c. (p @ [fst c]) # entries_of (snd c) (p @ [fst c])) cs)"
  by (simp add: case_prod_beta comp_def)

lemma sort_levels_Dir:
  "sort_levels (Dir_node cs) = Dir_node (sort_key fst (map (\<lambda>c. (fst c, sort_levels (snd c))) cs))"
  by (simp add: map_prod_def case_prod_unfold)

lemma distinct_names_Dir:
  "distinct_names (Dir_node cs) \<longleftrightarrow> distinct (map fst cs) \<and> (\<forall>c\<in>set cs. distinct_names (snd c))"
  by (auto simp: list_all_iff)

lemma append_le_append: "p @ a \<le> p @ b \<longleftrightarrow> a \<le> (b :: 'a :: linorder list)"
  by (induction p) simp_all

lemma entries_extend:
  "x \<in> set (entries_of t p) \<Longrightarrow> \<exists>r. r \<noteq> [] \<and> x = p @ r"
proof (induction t arbitrary: p x)
  case File_node
  then show ?case by simp
next
  case (Dir_node cs)
  from Dir_node.prems obtain c where c: "c \<in> set cs"
    and x: "x = p @ [fst c] \<or> x \<in> set (entries_of (snd c) (p @ [fst c]))"
    by (auto simp: entries_of_Dir)
  from x show ?case
  proof
    assume "x = p @ [fst c]"
    then show ?thesis by blast
  next
    assume "x \<in> set (entries_of (snd c) (p @ [fst c]))"
    moreover have "snd c \<in> Basic_BNFs.snds c"
      by (cases c) simp
    ultimately obtain r where "x = (p @ [fst c]) @ r"
      using Dir_node.IH [OF c] by blast
    then have "x = p @ (fst c # r)"
      by simp
    then show ?thesis by blast
  qed
qed

lemma mset_concat_map_cong:
  assumes "mset xs = mset ys" and "\<And>x. x \<in> set xs \<Longrightarrow> mset (f x) = mset (g x)"
  shows "mset (concat (map f xs)) = mset (concat (map g ys))"
proof -
  have "mset (concat (map f xs)) = sum_mset (image_mset (\<lambda>x. mset (f x)) (mset xs))"
    by (simp add: mset_concat sum_mset_sum_list [symmetric] comp_def multiset.map_comp)
  also have "\<dots> = sum_mset (image_mset (\<lambda>x. mset (g x)) (mset xs))"
    using assms(2) by (intro arg_cong [where f = sum_mset] image_mset_cong) simp
  also have "\<dots> = sum_mset (image_mset (\<lambda>x. mset (g x)) (mset ys))"
    by (simp only: assms(1))
  also have "\<dots> = mset (concat (map g ys))"
    by (simp add: mset_concat sum_mset_sum_list [symmetric] comp_def multiset.map_comp)
  finally show ?thesis .
qed

lemma mset_entries_sort_levels:
  "mset (entries_of (sort_levels t) p) = mset (entries_of t p)"
proof (induction t arbitrary: p)
  case File_node
  show ?case by simp
next
  case (Dir_node cs)
  let ?g = "\<lambda>c. (fst c, sort_levels (snd c))"
  let ?f = "\<lambda>c. (p @ [fst c]) # entries_of (snd c) (p @ [fst c])"
  have "mset (concat (map ?f (sort_key fst (map ?g cs)))) = mset (concat (map ?f (map ?g cs)))"
    by (intro mset_concat_map_cong) simp_all
  also have "\<dots> = mset (concat (map (\<lambda>c. ?f (?g c)) cs))"
    by (simp add: comp_def)
  also have "\<dots> = mset (concat (map ?f cs))"
  proof (intro mset_concat_map_cong refl)
    fix c assume c: "c \<in> set cs"
    have "snd c \<in> Basic_BNFs.snds c"
      by (cases c) simp
    then have "mset (entries_of (sort_levels (snd c)) (p @ [fst c])) = mset (entries_of (snd c) (p @ [fst c]))"
      using Dir_node.IH [OF c] by blast
    then show "mset (?f (?g c)) = mset (?f c)"
      by simp
  qed
  finally show ?case
    by (simp only: sort_levels_Dir entries_of_Dir)
qed

lemma sorted_concat_blocks:
  fixes xss :: "('a :: linorder) list list"
  assumes "\<forall>xs\<in>set xss. sorted xs"
    and "sorted_wrt (\<lambda>xs ys. \<forall>x\<in>set xs. \<forall>y\<in>set ys. x \<le> y) xss"
  shows "sorted (concat xss)"
  using assms by (induction xss) (auto simp: sorted_append)

lemma sorted_entries_sort_levels:
  "distinct_names t \<Longrightarrow> sorted (entries_of (sort_levels t) p)"
proof (induction t arbitrary: p)
  case File_node
  show ?case by simp
next
  case (Dir_node cs)
  let ?g = "\<lambda>c. (fst c, sort_levels (snd c))"
  let ?f = "\<lambda>c. (p @ [fst c]) # entries_of (snd c) (p @ [fst c])"
  let ?ys = "sort_key fst (map ?g cs)"
  from Dir_node.prems have dist: "distinct (map fst cs)"
    and sub: "\<forall>c\<in>set cs. distinct_names (snd c)"
    unfolding distinct_names_Dir by blast+
  have block: "sorted (?f d)" if "d \<in> set ?ys" for d
  proof -
    from that obtain c where c: "c \<in> set cs" and d: "d = ?g c"
      by auto
    have "snd c \<in> Basic_BNFs.snds c"
      by (cases c) simp
    then have s: "sorted (entries_of (sort_levels (snd c)) (p @ [fst c]))"
      using Dir_node.IH [OF c] sub c by blast
    have "p @ [fst c] \<le> x" if "x \<in> set (entries_of (sort_levels (snd c)) (p @ [fst c]))" for x
    proof -
      from entries_extend [OF that] obtain r where "x = (p @ [fst c]) @ r"
        by blast
      then have "x = p @ (fst c # r)"
        by simp
      then show ?thesis
        by (simp add: append_le_append)
    qed
    with s show ?thesis
      by (simp add: d)
  qed
  have "mset (map fst ?ys) = mset (map fst cs)"
    by (simp add: comp_def multiset.map_comp)
  from mset_eq_imp_distinct_iff [OF this] dist have "distinct (map fst ?ys)"
    by blast
  moreover have "sorted (map fst ?ys)"
    by (rule sorted_sort_key)
  ultimately have "sorted_wrt (<) (map fst ?ys)"
    by (simp only: strict_sorted_iff)
  then have names: "sorted_wrt (\<lambda>c d. fst c < fst d) ?ys"
    by (simp add: sorted_wrt_map)
  have between: "\<forall>x\<in>set (?f c). \<forall>y\<in>set (?f d). x \<le> y" if "fst c < fst d" for c d :: "string \<times> node"
  proof (intro ballI)
    fix x y assume "x \<in> set (?f c)" "y \<in> set (?f d)"
    then obtain r r' where "x = p @ (fst c # r)" "y = p @ (fst d # r')"
      using entries_extend [of x "snd c" "p @ [fst c]"] entries_extend [of y "snd d" "p @ [fst d]"]
      by auto
    with that show "x \<le> y"
      by (simp add: append_le_append)
  qed
  have "sorted_wrt (\<lambda>xs ys. \<forall>x\<in>set xs. \<forall>y\<in>set ys. x \<le> y) (map ?f ?ys)"
    unfolding sorted_wrt_map using names between by (rule sorted_wrt_mono_rel [rotated]) blast
  moreover have "\<forall>xs\<in>set (map ?f ?ys). sorted xs"
    using block by auto
  ultimately have "sorted (concat (map ?f ?ys))"
    by (intro sorted_concat_blocks)
  then show ?case
    by (simp only: sort_levels_Dir entries_of_Dir)
qed

lemma sort_entries:
  assumes "distinct_names t" and "mset xs = mset (entries_of t p)"
  shows "sort xs = entries_of (sort_levels t) p"
proof (rule properties_for_sort)
  show "mset (entries_of (sort_levels t) p) = mset xs"
    by (simp add: mset_entries_sort_levels assms(2))
  show "sorted (entries_of (sort_levels t) p)"
    using assms(1) by (rule sorted_entries_sort_levels)
qed

section \<open>The collector: what is emitted\<close>

text \<open>Every branch emits only paths that pass the suffix test.\<close>

lemma contribution_suffix:
  "contribution fs raw = Inr found \<Longrightarrow> \<forall>p\<in>set found. has_image_suffix p"
  by (auto simp: contribution_def Let_def split: if_splits sum.splits)

lemma collect_from_suffix:
  "collect_from fs paths raws = Inr found \<Longrightarrow> \<forall>p\<in>set paths. has_image_suffix p
     \<Longrightarrow> \<forall>p\<in>set found. has_image_suffix p"
proof (induction raws arbitrary: paths)
  case Nil
  then show ?case by simp
next
  case (Cons raw raws)
  from Cons.prems(1) obtain one where one: "contribution fs raw = Inr one"
    and rest: "collect_from fs (paths @ one) raws = Inr found"
    by (auto simp only: collect_from_Cons split: sum.splits)
  from contribution_suffix [OF one] Cons.prems(2) have "\<forall>p\<in>set (paths @ one). has_image_suffix p"
    by auto
  with rest show ?case
    by (rule Cons.IH)
qed

lemma collected_have_image_suffix:
  "collect_image_paths fs raws = Inr found \<Longrightarrow> \<forall>p\<in>set found. has_image_suffix p"
  unfolding collect_image_paths_def by (erule collect_from_suffix) simp

lemma collect_single: "collect_image_paths fs [raw] = contribution fs raw"
  by (simp only: collect_image_paths_def collect_from_Cons) (simp split: sum.splits)

text \<open>
  Claim C5.  The claim has every emitted path be a regular file.  Only the first branch
  asks \<open>is_file\<close>; the directory branch and the glob branch test the suffix alone.  In
  the example, the input \<open>scans\<close> makes the collector emit \<open>scans/page.png\<close>, which is
  a directory.
\<close>

theorem collect_emits_directory:
  "collect_image_paths example_fs [''scans'']
     = Inr [[''scans'', ''B.jpg''], [''scans'', ''a'', ''z.bmp''], [''scans'', ''a.jpg''],
            [''scans'', ''page.png''], [''scans'', ''page.png'', ''x.gif'']]
   \<and> stat_kind example_fs [''scans'', ''page.png''] = Inr (Some Directory)
   \<and> is_file example_fs [''scans'', ''page.png''] = Inr False"
  by code_simp

text \<open>
  Claim C6.  Let the input name an existing directory and let \<open>rglob\<close> yield, in any
  order, the entries of a tree \<open>t\<close> in which no directory lists a name twice.  Then the
  collector emits the entries with a recognized suffix in the order of the recursive
  traversal of \<open>t\<close> that visits every level sorted by name.  That traversal is sorted in
  the order of paths and has exactly the entries \<open>rglob\<close> yields.
\<close>

theorem collect_directory_sorted_walk:
  assumes "is_dir fs (Path raw) = Inr True"
    and "distinct_names t"
    and "mset (rglob_all fs (Path raw)) = mset (entries_of t (Path raw))"
  shows "collect_image_paths fs [raw]
           = Inr (filter has_image_suffix (entries_of (sort_levels t) (Path raw)))
    \<and> sorted (entries_of (sort_levels t) (Path raw))
    \<and> mset (entries_of (sort_levels t) (Path raw)) = mset (rglob_all fs (Path raw))"
proof -
  from assms(1) have "is_file fs (Path raw) = Inr False"
    by (auto simp: is_dir_def is_file_def split: sum.splits)
  with assms(1) have "contribution fs raw
      = Inr (filter has_image_suffix (sort (rglob_all fs (Path raw))))"
    by (simp add: contribution_def)
  moreover have "sort (rglob_all fs (Path raw)) = entries_of (sort_levels t) (Path raw)"
    using assms(2,3) by (rule sort_entries)
  moreover have "sorted (entries_of (sort_levels t) (Path raw))"
    using assms(2) by (rule sorted_entries_sort_levels)
  moreover have "mset (entries_of (sort_levels t) (Path raw)) = mset (rglob_all fs (Path raw))"
    by (simp add: mset_entries_sort_levels assms(3))
  ultimately show ?thesis
    by (simp add: collect_single)
qed

text \<open>
  The theorem at the directory \<open>scans\<close> of the example, where \<open>a/z.bmp\<close> comes before
  \<open>a.jpg\<close> as the traversal has it.
\<close>

theorem collect_directory_sorted_walk_witness:
  "collect_image_paths example_fs [''scans'']
     = Inr [[''scans'', ''B.jpg''], [''scans'', ''a'', ''z.bmp''], [''scans'', ''a.jpg''],
            [''scans'', ''page.png''], [''scans'', ''page.png'', ''x.gif'']]"
proof -
  let ?t = "Dir_node
         [(''page.png'', Dir_node [(''x.gif'', File_node)]),
          (''a.jpg'', File_node),
          (''a'', Dir_node [(''z.bmp'', File_node)]),
          (''B.jpg'', File_node)]"
  have p: "Path ''scans'' = [''scans'']"
    by code_simp
  have d: "is_dir example_fs [''scans''] = Inr True"
    by code_simp
  have n: "distinct_names ?t"
    by code_simp
  have r: "rglob_all example_fs [''scans''] = entries_of ?t [''scans'']"
    by code_simp
  have w: "filter has_image_suffix (entries_of (sort_levels ?t) [''scans''])
     = [[''scans'', ''B.jpg''], [''scans'', ''a'', ''z.bmp''], [''scans'', ''a.jpg''],
        [''scans'', ''page.png''], [''scans'', ''page.png'', ''x.gif'']]"
    by code_simp
  from collect_directory_sorted_walk [of example_fs "''scans''" ?t] show ?thesis
    unfolding p w using d n r by simp
qed

section \<open>The run: events and records\<close>

lemma run_ocr_events:
  "e \<in> set (fst (run_ocr w p language)) \<Longrightarrow> e = Image_open p \<or> e = Image_to_string p language"
  by (auto simp: run_ocr_def split: sum.splits)

lemma build_from_events:
  "e \<in> set (fst (build_from w language tr qs ps)) \<Longrightarrow>
     e \<in> set tr \<or> (\<exists>p. e = Image_open p) \<or> (\<exists>p. e = Image_to_string p language)"
proof (induction ps arbitrary: tr qs)
  case Nil
  then show ?case by simp
next
  case (Cons p ps)
  obtain ev r where run: "run_ocr w p language = (ev, r)"
    by (cases "run_ocr w p language")
  have ev: "x = Image_open p \<or> x = Image_to_string p language" if "x \<in> set ev" for x
    using run_ocr_events [of x w p language] that by (simp add: run)
  show ?case
  proof (cases r)
    case (Inl err)
    with Cons.prems run have "e \<in> set (tr @ ev)"
      by simp
    with ev show ?thesis
      by auto
  next
    case (Inr body)
    obtain q a where qa: "split_question_answer body = (q, a)"
      by (cases "split_question_answer body")
    from Cons.prems run Inr qa
    have "e \<in> set (fst (build_from w language (tr @ ev) (qs @ [\<lparr>question = q, answer = a\<rparr>]) ps))"
      by simp
    from Cons.IH [OF this] ev show ?thesis
      by auto
  qed
qed

lemma emitted_none: "\<forall>e\<in>set tr. (\<forall>out d. e \<noteq> Write_text out d) \<and> (\<forall>d. e \<noteq> Print d) \<Longrightarrow> emitted tr = []"
  by (induction tr rule: emitted.induct) auto

lemma emitted_append: "emitted (tr @ tr') = emitted tr @ emitted tr'"
  by (induction tr rule: emitted.induct) auto

lemma build_questions_events:
  "e \<in> set (fst (build_questions w ps language)) \<Longrightarrow>
     (\<exists>p. e = Image_open p) \<or> (\<exists>p. e = Image_to_string p language)"
  unfolding build_questions_def using build_from_events [of e w language "[]" "[]" ps] by simp

lemma build_questions_emitted: "emitted (fst (build_questions w ps language)) = []"
  by (rule emitted_none) (auto dest: build_questions_events)


lemma build_from_Inr:
  "snd (build_from w language tr qs ps) = Inr result \<longleftrightarrow>
     (\<exists>new. result = qs @ new
        \<and> list_all2 (\<lambda>p q. \<exists>t. snd (run_ocr w p language) = Inr t
              \<and> q = \<lparr>question = fst (split_question_answer t),
                     answer = snd (split_question_answer t)\<rparr>) ps new)"
proof (induction ps arbitrary: tr qs)
  case Nil
  show ?case by auto
next
  case (Cons p ps)
  obtain ev r where run: "run_ocr w p language = (ev, r)"
    by (cases "run_ocr w p language")
  show ?case
  proof (cases r)
    case (Inl err)
    with run show ?thesis
      by (auto simp: list_all2_Cons1)
  next
    case (Inr body)
    obtain q a where qa: "split_question_answer body = (q, a)"
      by (cases "split_question_answer body")
    have "snd (build_from w language tr qs (p # ps)) =
        snd (build_from w language (tr @ ev) (qs @ [\<lparr>question = q, answer = a\<rparr>]) ps)"
      using run Inr qa by simp
    then show ?thesis
      using run Inr qa by (simp only: Cons.IH) (auto simp: list_all2_Cons1)
  qed
qed

lemma build_questions_Inr:
  "snd (build_questions w ps language) = Inr questions \<longleftrightarrow>
     (length questions = length ps
      \<and> (\<forall>i<length ps. \<exists>t. snd (run_ocr w (ps ! i) language) = Inr t
            \<and> questions ! i = \<lparr>question = fst (split_question_answer t),
                                answer = snd (split_question_answer t)\<rparr>))"
  unfolding build_questions_def build_from_Inr
  by (auto simp: list_all2_conv_all_nth)

section \<open>The run: how it ends\<close>

lemma main_cases:
  obtains
    (unavailable) "\<not> which_tesseract w"
      "main w args = ([Which_tesseract],
         Inl (SystemExit (''Tesseract OCR binary not found on PATH. Install it and try again. ''
           @ ''See https://tesseract-ocr.github.io/tessdoc/Installation.html for instructions.'')))"
  | (collect_error) e where "which_tesseract w"
      "collect_image_paths (files w) (inputs args) = Inl e"
      "main w args = ([Which_tesseract, Collect_paths (inputs args)], Inl e)"
  | (nothing_found) "which_tesseract w"
      "collect_image_paths (files w) (inputs args) = Inr []"
      "main w args = ([Which_tesseract, Collect_paths (inputs args)],
         Inl (SystemExit ''No matching image files found.''))"
  | (ocr_error) ps tr1 e where "which_tesseract w"
      "collect_image_paths (files w) (inputs args) = Inr ps" "ps \<noteq> []"
      "build_questions w ps (lang args) = (tr1, Inl e)"
      "main w args = (Which_tesseract # Collect_paths (inputs args) # tr1, Inl e)"
  | (write_error) ps tr1 qs out e where "which_tesseract w"
      "collect_image_paths (files w) (inputs args) = Inr ps" "ps \<noteq> []"
      "build_questions w ps (lang args) = (tr1, Inr qs)"
      "output_file args = Some out" "write_text_error w out = Some e"
      "main w args = (Which_tesseract # Collect_paths (inputs args) # tr1, Inl e)"
  | (written) ps tr1 qs out where "which_tesseract w"
      "collect_image_paths (files w) (inputs args) = Inr ps" "ps \<noteq> []"
      "build_questions w ps (lang args) = (tr1, Inr qs)"
      "output_file args = Some out" "write_text_error w out = None"
      "main w args = (Which_tesseract # Collect_paths (inputs args) # tr1
         @ [Write_text out (Dumps qs (indent args))], Inr ())"
  | (print_fails) ps tr1 qs e where "which_tesseract w"
      "collect_image_paths (files w) (inputs args) = Inr ps" "ps \<noteq> []"
      "build_questions w ps (lang args) = (tr1, Inr qs)"
      "output_file args = None" "print_error w (Dumps qs (indent args)) = Some e"
      "main w args = (Which_tesseract # Collect_paths (inputs args) # tr1, Inl e)"
  | (printed) ps tr1 qs where "which_tesseract w"
      "collect_image_paths (files w) (inputs args) = Inr ps" "ps \<noteq> []"
      "build_questions w ps (lang args) = (tr1, Inr qs)"
      "output_file args = None" "print_error w (Dumps qs (indent args)) = None"
      "main w args = (Which_tesseract # Collect_paths (inputs args) # tr1
         @ [Print (Dumps qs (indent args))], Inr ())"
proof (cases "which_tesseract w")
  case False
  then show ?thesis
    using unavailable by (simp add: main_def ensure_tesseract_available_def)
next
  case avail: True
  show ?thesis
  proof (cases "collect_image_paths (files w) (inputs args)")
    case (Inl e)
    with avail show ?thesis
      using collect_error by (simp add: main_def ensure_tesseract_available_def)
  next
    case (Inr ps)
    show ?thesis
    proof (cases "ps = []")
      case True
      with avail Inr show ?thesis
        using nothing_found by (simp add: main_def ensure_tesseract_available_def)
    next
      case ne: False
      obtain tr1 r where build: "build_questions w ps (lang args) = (tr1, r)"
        by (cases "build_questions w ps (lang args)")
      show ?thesis
      proof (cases r)
        case (Inl e)
        with avail Inr ne build show ?thesis
          using ocr_error by (simp add: main_def ensure_tesseract_available_def)
      next
        case qs: (Inr qs)
        show ?thesis
        proof (cases "output_file args")
          case no_file: None
          show ?thesis
          proof (cases "print_error w (Dumps qs (indent args))")
            case None
            with avail Inr ne build qs no_file show ?thesis
              using printed by (simp add: main_def ensure_tesseract_available_def)
          next
            case (Some e)
            with avail Inr ne build qs no_file show ?thesis
              using print_fails by (simp add: main_def ensure_tesseract_available_def)
          qed
        next
          case (Some out)
          show ?thesis
          proof (cases "write_text_error w out")
            case None
            with avail Inr ne build qs Some show ?thesis
              using written by (simp add: main_def ensure_tesseract_available_def)
          next
            case e: (Some e)
            with avail Inr ne build qs Some show ?thesis
              using write_error by (simp add: main_def ensure_tesseract_available_def)
          qed
        qed
      qed
    qed
  qed
qed



text \<open>
  Claim C3.  \<open>build_questions\<close> returns a list exactly when OCR succeeds on every image
  path, and that list has one record per path, the record at position \<open>i\<close> being the
  splitter applied to the OCR text of the path at position \<open>i\<close>.  A document a run emits
  is the only one it emits, and its records are such a list for the collected paths.
\<close>

theorem one_record_per_image:
  "(snd (build_questions w image_paths language) = Inr questions \<longleftrightarrow>
      length questions = length image_paths
      \<and> (\<forall>i<length image_paths. \<exists>t. snd (run_ocr w (image_paths ! i) language) = Inr t
            \<and> questions ! i = \<lparr>question = fst (split_question_answer t),
                                answer = snd (split_question_answer t)\<rparr>))
   \<and> (\<forall>d\<in>set (emitted (fst (main w args))). \<exists>collected records.
         collect_image_paths (files w) (inputs args) = Inr collected
         \<and> emitted (fst (main w args)) = [d]
         \<and> d = Dumps records (indent args)
         \<and> length records = length collected
         \<and> (\<forall>i<length collected. \<exists>t. snd (run_ocr w (collected ! i) (lang args)) = Inr t
               \<and> records ! i = \<lparr>question = fst (split_question_answer t),
                                 answer = snd (split_question_answer t)\<rparr>))"
proof (rule conjI)
  show "snd (build_questions w image_paths language) = Inr questions \<longleftrightarrow>
      length questions = length image_paths
      \<and> (\<forall>i<length image_paths. \<exists>t. snd (run_ocr w (image_paths ! i) language) = Inr t
            \<and> questions ! i = \<lparr>question = fst (split_question_answer t),
                                answer = snd (split_question_answer t)\<rparr>)"
    by (rule build_questions_Inr)
next
  let ?good = "\<lambda>d. \<exists>collected records.
         collect_image_paths (files w) (inputs args) = Inr collected
         \<and> emitted (fst (main w args)) = [d]
         \<and> d = Dumps records (indent args)
         \<and> length records = length collected
         \<and> (\<forall>i<length collected. \<exists>t. snd (run_ocr w (collected ! i) (lang args)) = Inr t
               \<and> records ! i = \<lparr>question = fst (split_question_answer t),
                                 answer = snd (split_question_answer t)\<rparr>)"
  have good_doc: "?good (Dumps qs (indent args))"
    if "collect_image_paths (files w) (inputs args) = Inr ps"
      and "build_questions w ps (lang args) = (tr1, Inr qs)"
      and "emitted (fst (main w args)) = [Dumps qs (indent args)]" for ps tr1 qs
  proof -
    from that(2) have "snd (build_questions w ps (lang args)) = Inr qs"
      by simp
    then have "length qs = length ps
      \<and> (\<forall>i<length ps. \<exists>t. snd (run_ocr w (ps ! i) (lang args)) = Inr t
            \<and> qs ! i = \<lparr>question = fst (split_question_answer t),
                         answer = snd (split_question_answer t)\<rparr>)"
      using build_questions_Inr [of w ps "lang args" qs] by blast
    with that(1,3) show ?thesis
      by blast
  qed
  show "\<forall>d\<in>set (emitted (fst (main w args))). ?good d"
  proof (cases w args rule: main_cases)
    case unavailable
    then show ?thesis by simp
  next
    case (collect_error e)
    then show ?thesis by simp
  next
    case nothing_found
    then show ?thesis by simp
  next
    case (ocr_error ps tr1 e)
    then have "emitted (fst (main w args)) = []"
      using build_questions_emitted [of w ps "lang args"] by simp
    then show ?thesis by simp
  next
    case (write_error ps tr1 qs out e)
    then have "emitted (fst (main w args)) = []"
      using build_questions_emitted [of w ps "lang args"] by simp
    then show ?thesis by simp
  next
    case (print_fails ps tr1 qs e)
    then have "emitted (fst (main w args)) = []"
      using build_questions_emitted [of w ps "lang args"] by simp
    then show ?thesis by simp
  next
    case (written ps tr1 qs out)
    then have e: "emitted (fst (main w args)) = [Dumps qs (indent args)]"
      using build_questions_emitted [of w ps "lang args"] by (simp add: emitted_append)
    from good_doc [OF written(2,4) e] show ?thesis
      by (simp only: e) simp
  next
    case (printed ps tr1 qs)
    then have e: "emitted (fst (main w args)) = [Dumps qs (indent args)]"
      using build_questions_emitted [of w ps "lang args"] by (simp add: emitted_append)
    from good_doc [OF printed(2,4) e] show ?thesis
      by (simp only: e) simp
  qed
qed

text \<open>The theorem at the two images of the directory \<open>photos\<close>.\<close>

theorem one_record_per_image_witness:
  "snd (build_questions example_world [[''photos'', ''a.PNG''], [''photos'', ''c.jpeg'']] ''eng'')
     = Inr [\<lparr>question = ''What is 2+2?'', answer = ''4''\<rparr>,
            \<lparr>question = ''Define entropy'', answer = ''A measure of disorder''\<rparr>]"
proof -
  have r0: "snd (run_ocr example_world [''photos'', ''a.PNG''] ''eng'')
      = Inr ''What is 2+2?\<newline>Answer: 4''"
    and r1: "snd (run_ocr example_world [''photos'', ''c.jpeg''] ''eng'')
      = Inr ''Q: Define entropy\<newline>A measure of disorder''"
    by code_simp+
  have s0: "split_question_answer ''What is 2+2?\<newline>Answer: 4'' = (''What is 2+2?'', ''4'')"
    and s1: "split_question_answer ''Q: Define entropy\<newline>A measure of disorder''
      = (''Define entropy'', ''A measure of disorder'')"
    by code_simp+
  show ?thesis
    using one_record_per_image
      [of example_world "[[''photos'', ''a.PNG''], [''photos'', ''c.jpeg'']]" "''eng''"
          "[\<lparr>question = ''What is 2+2?'', answer = ''4''\<rparr>,
            \<lparr>question = ''Define entropy'', answer = ''A measure of disorder''\<rparr>]"]
    by (simp add: All_less_Suc r0 r1 s0 s1)
qed




text \<open>An exception of the first \<open>stat\<close> call ends the collection.\<close>

lemma collect_raises_with_stat:
  "stat_kind fs (Path raw) = Inl e \<Longrightarrow> collect_image_paths fs (raw # raws) = Inl e"
  by (simp add: collect_image_paths_def is_file_def)







end
